theory Spec2Isabelle
  imports Main "HOL-Library.FSet" "HOL-Library.Sublist"
begin

section \<open>The crawler of \<open>crawler.py\<close>\<close>

text \<open>
  A shallow embedding of class \<open>AsyncProductCrawler\<close>. URLs, HTML bodies and domain names
  are Python \<open>str\<close> values, modelled as \<open>string\<close>. Python's \<open>set\<close> is a finite set
  (\<open>fset\<close>), \<open>asyncio.Queue\<close> is a list with its head at the front, and Python's
  unbounded \<open>int\<close> is \<open>int\<close>.
\<close>

type_synonym url = string

subsection \<open>Configuration (\<open>__init__\<close>)\<close>

record crawler =
  max_depth :: int
  max_pages :: int
  max_concurrent_requests :: int

subsection \<open>URL classification (\<open>is_product_url\<close>)\<close>

definition PRODUCT_PATTERNS :: "string list" where
  "PRODUCT_PATTERNS = [''/product/'', ''/item/'', ''/p/'', ''/catalogue/'']"

text \<open>
  \<open>re.search(pattern, url)\<close> for a pattern without regular-expression metacharacters (all
  four patterns of \<open>PRODUCT_PATTERNS\<close> are such): it tries every start position of the
  subject from left to right and matches the pattern there literally.
\<close>

fun match_here :: "string \<Rightarrow> string \<Rightarrow> bool" where
  "match_here [] s = True"
| "match_here (p # ps) [] = False"
| "match_here (p # ps) (c # cs) = (p = c \<and> match_here ps cs)"

fun re_search :: "string \<Rightarrow> string \<Rightarrow> bool" where
  "re_search pat [] = match_here pat []"
| "re_search pat (c # cs) = (match_here pat (c # cs) \<or> re_search pat cs)"

definition is_product_url :: "url \<Rightarrow> bool" where
  "is_product_url url = list_ex (\<lambda>pattern. re_search pattern url) PRODUCT_PATTERNS"

subsection \<open>Fetching (\<open>fetch_url\<close>)\<close>

text \<open>
  What \<open>session.get(url, timeout=10)\<close> can do: raise \<open>asyncio.TimeoutError\<close>, raise a
  transport error (\<open>aiohttp.ClientError\<close>, \<open>OSError\<close>), or deliver a response with a
  status code; reading the body with \<open>response.text()\<close> then either gives the text or
  raises (\<open>None\<close>). The network is a parameter: a function from a state of the outside
  world \<open>'w\<close> and the requested URL to the outcome and the next state of the world, so a
  server may answer the same URL differently every time.
\<close>

datatype http_outcome =
    Timeout
  | TransportError
  | Responded int "string option"

type_synonym 'w session = "'w \<Rightarrow> url \<Rightarrow> http_outcome \<times> 'w"

definition fetch_url :: "'w session \<Rightarrow> 'w \<Rightarrow> url \<Rightarrow> string option \<times> 'w" where
  "fetch_url session_get w url =
     (case session_get w url of
        (Timeout, w') \<Rightarrow> (None, w')
      | (TransportError, w') \<Rightarrow> (None, w')
      | (Responded status text, w') \<Rightarrow> (if status = 200 then text else None, w'))"

subsection \<open>The traversal state of \<open>crawl_domain\<close>\<close>

text \<open>
  The events of one traversal, in the order in which the code performs them. \<open>Get\<close> and
  \<open>Fetch\<close> carry the value of \<open>visited\<close> at that moment, \<open>Fetch\<close> also what
  \<open>fetch_url\<close> returned.
\<close>

datatype event =
    Get url int "url fset"
  | Fetch url "url fset" "string option"
  | Add url
  | Put url int

text \<open>
  \<open>queue\<close>, \<open>visited\<close> and \<open>product_urls\<close> are the local variables of \<open>crawl_domain\<close>,
  \<open>world\<close> is the state of the network. \<open>trace\<close> is not a variable of the code: the
  model writes the events into it as it performs them, and reads it nowhere, so that
  nothing the code computes depends on it.
\<close>

record 'w crawl_state =
  queue :: "(url \<times> int) list"
  visited :: "url fset"
  product_urls :: "url fset"
  world :: 'w
  trace :: "event list"

text \<open>
  \<open>parse_links\<close> is the HTML parser and URL resolver of two libraries; it is a parameter
  that gives the elements of the returned set in the order in which the \<open>for\<close> loop
  meets them, or \<open>None\<close> when it raises. \<open>remdups\<close> makes the list a set whatever the
  parameter is.
\<close>

type_synonym extractor = "string \<Rightarrow> url \<Rightarrow> url list option"

text \<open>The \<open>for link in links\<close> loop; \<open>domain in link\<close> is the substring test.\<close>

fun process_links :: "string \<Rightarrow> int \<Rightarrow> url list \<Rightarrow> 'w crawl_state \<Rightarrow> 'w crawl_state" where
  "process_links domain depth [] s = s"
| "process_links domain depth (link # links) s =
     process_links domain depth links
       (if link |\<in>| visited s then s
        else if is_product_url link then
          s\<lparr>product_urls := finsert link (product_urls s), trace := trace s @ [Add link]\<rparr>
        else if sublist domain link then
          s\<lparr>queue := queue s @ [(link, depth + 1)], trace := trace s @ [Put link (depth + 1)]\<rparr>
        else s)"

text \<open>
  One pass through the body of the \<open>while\<close> loop, for the task that \<open>queue.get()\<close>
  returned; the state passed in has that task removed from the queue. \<open>Raise\<close>: an
  exception of \<open>parse_links\<close> leaves the loop and \<open>crawl_domain\<close>.
\<close>

datatype 's step = Continue 's | Raise 's

fun iteration ::
  "crawler \<Rightarrow> 'w session \<Rightarrow> extractor \<Rightarrow> string \<Rightarrow> url \<times> int \<Rightarrow> 'w crawl_state
     \<Rightarrow> 'w crawl_state step" where
  "iteration cfg session_get parse_links domain (current_url, depth) s =
     (let s1 = s\<lparr>trace := trace s @ [Get current_url depth (visited s)]\<rparr> in
      if depth > max_depth cfg \<or> current_url |\<in>| visited s1 then Continue s1
      else
        let s2 = s1\<lparr>visited := finsert current_url (visited s1)\<rparr>;
            (html, w') = fetch_url session_get (world s2) current_url;
            s3 = s2\<lparr>world := w', trace := trace s2 @ [Fetch current_url (visited s2) html]\<rparr>
        in (case html of
              None \<Rightarrow> Continue s3
            | Some body \<Rightarrow>
                (case parse_links body current_url of
                   None \<Rightarrow> Raise s3
                 | Some links \<Rightarrow> Continue (process_links domain depth (remdups links) s3))))"

datatype 's outcome = Returned (final: 's) | Raised (final: 's)

function crawl_loop ::
  "crawler \<Rightarrow> 'w session \<Rightarrow> extractor \<Rightarrow> string \<Rightarrow> 'w crawl_state \<Rightarrow> 'w crawl_state outcome" where
  "crawl_loop cfg session_get parse_links domain s =
     (case queue s of
        [] \<Rightarrow> Returned s
      | task # rest \<Rightarrow>
          if int (fcard (visited s)) < max_pages cfg then
            (case iteration cfg session_get parse_links domain task (s\<lparr>queue := rest\<rparr>) of
               Continue s' \<Rightarrow> crawl_loop cfg session_get parse_links domain s'
             | Raise s' \<Rightarrow> Raised s')
          else Returned s)"
  by pat_completeness auto
termination crawl_loop
proof (relation "inv_image (measure nat <*lex*> measure length)
    (\<lambda>(cfg, session_get, parse_links, domain, s).
       (max_pages cfg - int (fcard (visited s)), queue s))")
  show "wf (inv_image (measure nat <*lex*> measure length)
    (\<lambda>(cfg :: crawler, session_get :: 'w session, parse_links :: extractor, domain :: string,
        s :: 'w crawl_state). (max_pages cfg - int (fcard (visited s)), queue s)))"
    by (intro wf_inv_image wf_lex_prod wf_measure)
next
  fix cfg :: crawler and session_get :: "'w session" and parse_links :: extractor
    and domain :: string and s :: "'w crawl_state" and task rest s'
  assume q: "queue s = task # rest"
    and b: "int (fcard (visited s)) < max_pages cfg"
    and it: "iteration cfg session_get parse_links domain task (s\<lparr>queue := rest\<rparr>) = Continue s'"
  have vis: "visited (process_links domain depth links t) = visited t"
    for depth links and t :: "'w crawl_state"
    by (induction links arbitrary: t) simp_all
  show "((cfg, session_get, parse_links, domain, s'), (cfg, session_get, parse_links, domain, s))
      \<in> inv_image (measure nat <*lex*> measure length)
         (\<lambda>(cfg, session_get, parse_links, domain, s).
            (max_pages cfg - int (fcard (visited s)), queue s))"
    using q b it
    by (cases task) (auto simp: Let_def vis fcard_finsert_disjoint
        split: prod.splits if_splits option.splits)
qed

text \<open>
  \<open>crawl_domain\<close>: the queue holds the root task, \<open>visited\<close> and \<open>product_urls\<close> are
  empty; the loop runs; \<open>Returned\<close> carries the state whose \<open>product_urls\<close> the function
  returns as a list.
\<close>

definition root_url :: "string \<Rightarrow> url" where
  "root_url domain = ''https://'' @ domain"

definition initial :: "string \<Rightarrow> 'w \<Rightarrow> 'w crawl_state" where
  "initial domain w =
     \<lparr>queue = [(root_url domain, 0)], visited = {||}, product_urls = {||}, world = w, trace = []\<rparr>"

definition crawl_domain ::
  "crawler \<Rightarrow> 'w session \<Rightarrow> extractor \<Rightarrow> string \<Rightarrow> 'w \<Rightarrow> 'w crawl_state outcome" where
  "crawl_domain cfg session_get parse_links domain w =
     crawl_loop cfg session_get parse_links domain (initial domain w)"

subsection \<open>The classifier as the specification words it\<close>

text \<open>
  The specification speaks of the URL's path component. \<open>spec_path_component\<close> is that
  component for a URL \<open>scheme://authority/path?query#fragment\<close>, as
  \<open>urllib.parse.urlparse\<close> splits it: the scheme ends at the first colon, the authority
  follows \<open>//\<close> and ends before the first of \<open>/ ? #\<close>, and the path ends before the
  first of \<open>? #\<close>. \<open>spec_isProduct\<close> is the classifier of the specification, which
  searches the patterns in that component only. Neither is part of \<open>crawler.py\<close>.
\<close>

definition spec_after_scheme :: "url \<Rightarrow> string" where
  "spec_after_scheme url =
     (let scheme = takeWhile (\<lambda>c. c \<noteq> CHR '':'') url in
      if scheme \<noteq> [] \<and> length scheme < length url
         \<and> list_all (\<lambda>c. c \<notin> set ''/?#'') scheme
      then drop (length scheme + 1) url else url)"

definition spec_path_component :: "url \<Rightarrow> string" where
  "spec_path_component url =
     (let rest = spec_after_scheme url;
          hier = (if match_here ''//'' rest
                  then dropWhile (\<lambda>c. c \<notin> set ''/?#'') (drop 2 rest) else rest)
      in takeWhile (\<lambda>c. c \<notin> set ''?#'') hier)"

definition spec_isProduct :: "url \<Rightarrow> bool" where
  "spec_isProduct url =
     list_ex (\<lambda>pattern. re_search pattern (spec_path_component url)) PRODUCT_PATTERNS"

subsection \<open>Reading a traversal\<close>

text \<open>
  The state a pass through the loop body leaves, whether it ends normally or by an
  exception.
\<close>

fun state_of :: "'s step \<Rightarrow> 's" where
  "state_of (Continue s) = s"
| "state_of (Raise s) = s"

text \<open>
  The links the \<open>for\<close> loop goes through after \<open>fetch_url\<close> returned \<open>html\<close>: none
  when the fetch gave \<open>None\<close> or \<open>parse_links\<close> raised.
\<close>

fun extracted :: "extractor \<Rightarrow> url \<Rightarrow> string option \<Rightarrow> url list" where
  "extracted parse_links u None = []"
| "extracted parse_links u (Some body) =
     (case parse_links body u of None \<Rightarrow> [] | Some links \<Rightarrow> remdups links)"

text \<open>The events the \<open>for\<close> loop adds to the trace, for \<open>visited = V\<close>.\<close>

fun link_events :: "string \<Rightarrow> int \<Rightarrow> url fset \<Rightarrow> url list \<Rightarrow> event list" where
  "link_events domain depth V [] = []"
| "link_events domain depth V (link # links) =
     (if link |\<in>| V then []
      else if is_product_url link then [Add link]
      else if sublist domain link then [Put link (depth + 1)]
      else []) @ link_events domain depth V links"

text \<open>The URLs on which \<open>fetch_url\<close> was called, in order, one entry per call.\<close>

fun fetches :: "event list \<Rightarrow> url list" where
  "fetches [] = []"
| "fetches (Fetch u V html # es) = u # fetches es"
| "fetches (e # es) = fetches es"

text \<open>The values of \<open>visited\<close> that the trace recorded, in order.\<close>

fun snapshots :: "event list \<Rightarrow> url fset list" where
  "snapshots [] = []"
| "snapshots (Get u d V # es) = V # snapshots es"
| "snapshots (Fetch u V html # es) = V # snapshots es"
| "snapshots (e # es) = snapshots es"

subsection \<open>A small site, for concrete runs\<close>

text \<open>
  The domain \<open>d.com\<close>: its root page links to a product page, to the page \<open>/about\<close>,
  to a product page of another domain and to a page of another domain; \<open>/about\<close> links
  back to the root, to \<open>/contact\<close> and to the product page; every other URL is answered
  with status 404. The state of the world counts the requests.
\<close>

definition shop :: crawler where
  "shop = \<lparr>max_depth = 1, max_pages = 5, max_concurrent_requests = 3\<rparr>"

definition shop_session :: "nat session" where
  "shop_session w u =
     (if u = ''https://d.com'' then (Responded 200 (Some ''ROOT''), Suc w)
      else if u = ''https://d.com/about'' then (Responded 200 (Some ''ABOUT''), Suc w)
      else (Responded 404 None, Suc w))"

definition shop_extractor :: extractor where
  "shop_extractor body base =
     (if body = ''ROOT'' then
        Some [''https://d.com/product/42'', ''https://d.com/about'',
              ''https://other.org/item/9'', ''https://other.org/news'']
      else if body = ''ABOUT'' then
        Some [''https://d.com'', ''https://d.com/contact'', ''https://d.com/product/42'']
      else Some [])"

definition shop_run :: "nat crawl_state" where
  "shop_run = final (crawl_domain shop shop_session shop_extractor ''d.com'' 0)"

subsection \<open>Invariants of the loop\<close>

text \<open>\<open>visited\<close> holds exactly the URLs fetched so far, and each was fetched once.\<close>

definition fetched_inv :: "'w crawl_state \<Rightarrow> bool" where
  "fetched_inv s \<longleftrightarrow>
     distinct (fetches (trace s)) \<and> fset_of_list (fetches (trace s)) = visited s"

text \<open>
  The page budget is kept, and every recorded value of \<open>visited\<close> is contained in the
  later ones.
\<close>

definition budget_inv :: "crawler \<Rightarrow> 'w crawl_state \<Rightarrow> bool" where
  "budget_inv cfg s \<longleftrightarrow>
     int (fcard (visited s)) \<le> max_pages cfg \<and>
     sorted_wrt (|\<subseteq>|) (snapshots (trace s) @ [visited s])"

text \<open>Every call of \<open>fetch_url\<close> directly follows the \<open>queue.get()\<close> of its task.\<close>

definition fetch_after_get :: "event list \<Rightarrow> bool" where
  "fetch_after_get tr \<longleftrightarrow>
     (\<forall>i u V html. i < length tr \<and> tr ! i = Fetch u V html \<longrightarrow>
        0 < i \<and> (\<exists>d V0. tr ! (i - 1) = Get u d V0 \<and> u |\<notin>| V0 \<and> V = finsert u V0))"

text \<open>
  A task that \<open>queue.get()\<close> returned is fetched directly afterwards exactly when its depth
  is within \<open>max_depth\<close> and its URL is not in \<open>visited\<close>.
\<close>

definition get_then_fetch :: "crawler \<Rightarrow> event list \<Rightarrow> bool" where
  "get_then_fetch cfg tr \<longleftrightarrow>
     (\<forall>i u d V. i < length tr \<and> tr ! i = Get u d V \<longrightarrow>
        ((Suc i < length tr \<and> (\<exists>html. tr ! Suc i = Fetch u (finsert u V) html))
           \<longleftrightarrow> (d \<le> max_depth cfg \<and> u |\<notin>| V)))"

text \<open>
  What was put on the queue and what was added to \<open>product_urls\<close>: only links that are
  not product URLs and contain the domain are put; \<open>product_urls\<close> holds exactly the
  links that were added, all of them product URLs; every task on the queue, and every task
  ever taken from it, is the root task or was put by the loop.
\<close>

definition link_inv :: "string \<Rightarrow> 'w crawl_state \<Rightarrow> bool" where
  "link_inv domain s \<longleftrightarrow>
     (\<forall>l d. Put l d \<in> set (trace s) \<longrightarrow> \<not> is_product_url l \<and> sublist domain l) \<and>
     (\<forall>l. Add l \<in> set (trace s) \<longleftrightarrow> l |\<in>| product_urls s) \<and>
     (\<forall>l. l |\<in>| product_urls s \<longrightarrow> is_product_url l) \<and>
     (\<forall>l d. (l, d) \<in> set (queue s) \<longrightarrow> (l, d) = (root_url domain, 0) \<or> Put l d \<in> set (trace s)) \<and>
     (\<forall>l d V. Get l d V \<in> set (trace s) \<longrightarrow>
        (l, d) = (root_url domain, 0) \<or> Put l d \<in> set (trace s))"

text \<open>
  \<open>product_urls\<close> holds exactly the product URLs among the links of the pages fetched so
  far that were not in \<open>visited\<close> when their page was processed.
\<close>

definition product_inv :: "extractor \<Rightarrow> 'w crawl_state \<Rightarrow> bool" where
  "product_inv parse_links s \<longleftrightarrow>
     (\<forall>l. l |\<in>| product_urls s \<longleftrightarrow>
        (\<exists>u V body links. Fetch u V (Some body) \<in> set (trace s) \<and>
           parse_links body u = Some links \<and> l \<in> set links \<and> l |\<notin>| V \<and> is_product_url l))"

subsection \<open>Failed fetches\<close>

text \<open>
  The failures of a fetch that the specification lists: a timeout, a transport error, or a
  response whose status is not a 2xx one.
\<close>

definition fetch_fails :: "http_outcome \<Rightarrow> bool" where
  "fetch_fails out =
     (case out of
        Timeout \<Rightarrow> True
      | TransportError \<Rightarrow> True
      | Responded status text \<Rightarrow> \<not> (200 \<le> status \<and> status < 300))"

text \<open>A network on which every request times out.\<close>

definition dead_session :: "nat session" where
  "dead_session w u = (Timeout, Suc w)"

subsection \<open>A root page with two links\<close>

text \<open>
  A configuration with \<open>max_depth = 0\<close>, and an extractor that finds on every page a link
  to \<open>/about\<close> and a link to \<open>/product/42\<close> below the page's own URL.
\<close>

definition flat :: crawler where
  "flat = \<lparr>max_depth = 0, max_pages = 10, max_concurrent_requests = 3\<rparr>"

definition two_links :: extractor where
  "two_links body base = Some [base @ ''/about'', base @ ''/product/42'']"

section \<open>Crawling several domains (\<open>crawl_domains\<close>)\<close>

text \<open>
  \<open>crawl_domains\<close> creates one task per entry of \<open>domains\<close>; each runs
  \<open>async with semaphore: results[domain] = await self.crawl_domain(domain)\<close>. The tasks
  interleave on one event loop, so a run is a sequence of steps of single tasks. A task
  is waiting until it has acquired the semaphore, running while it is inside
  \<open>crawl_domain\<close>, and done afterwards.

  \<open>asyncio.Semaphore(n)\<close> raises \<open>ValueError\<close> for \<open>n < 0\<close> and otherwise holds a
  counter \<open>sem\<close>, initially \<open>n\<close>: acquiring takes a task on only while the counter is
  positive and decrements it; leaving the \<open>async with\<close> block, by return or by
  exception, increments it. Which of the waiting tasks acquires next is left open here
  (asyncio wakes them in the order in which they arrived), so the runs of the model
  include those of the event loop.
\<close>

datatype phase = Waiting | Running | Done

record sched =
  phases :: "phase list"
  sem :: int
  results :: "string \<rightharpoonup> url list"

text \<open>
  The steps: task \<open>i\<close> enters the \<open>async with\<close> block; its \<open>crawl_domain\<close> returns a
  list, which is stored under its domain; its \<open>crawl_domain\<close> raises.
\<close>

datatype action = Acquire nat | Return nat "url list" | Fail nat

definition crawl_domains_start :: "crawler \<Rightarrow> string list \<Rightarrow> sched option" where
  "crawl_domains_start cfg domains =
     (if max_concurrent_requests cfg < 0 then None
      else Some \<lparr>phases = replicate (length domains) Waiting,
                 sem = max_concurrent_requests cfg, results = Map.empty\<rparr>)"

fun sched_step :: "string list \<Rightarrow> action \<Rightarrow> sched \<Rightarrow> sched option" where
  "sched_step domains (Acquire i) s =
     (if i < length (phases s) \<and> phases s ! i = Waiting \<and> 0 < sem s
      then Some (s\<lparr>phases := (phases s)[i := Running], sem := sem s - 1\<rparr>)
      else None)"
| "sched_step domains (Return i urls) s =
     (if i < length (phases s) \<and> phases s ! i = Running
      then Some (s\<lparr>phases := (phases s)[i := Done], sem := sem s + 1,
                   results := (results s)(domains ! i \<mapsto> urls)\<rparr>)
      else None)"
| "sched_step domains (Fail i) s =
     (if i < length (phases s) \<and> phases s ! i = Running
      then Some (s\<lparr>phases := (phases s)[i := Done], sem := sem s + 1\<rparr>)
      else None)"

text \<open>A run: the steps of a list, one after the other; \<open>None\<close> when one is not possible.\<close>

fun run :: "string list \<Rightarrow> action list \<Rightarrow> sched \<Rightarrow> sched option" where
  "run domains [] s = Some s"
| "run domains (a # as) s =
     (case sched_step domains a s of None \<Rightarrow> None | Some s' \<Rightarrow> run domains as s')"

text \<open>The number of tasks that are inside \<open>crawl_domain\<close>.\<close>

definition running :: "sched \<Rightarrow> nat" where
  "running s = length (filter (\<lambda>p. p = Running) (phases s))"

text \<open>A configuration that admits one domain at a time, and the state with one task inside.\<close>

definition narrow :: crawler where
  "narrow = \<lparr>max_depth = 2, max_pages = 10, max_concurrent_requests = 1\<rparr>"

definition one_inside :: sched where
  "one_inside = \<lparr>phases = [Running, Waiting], sem = 0, results = Map.empty\<rparr>"

section \<open>Properties\<close>

subsection \<open>Classification\<close>

lemma match_here_prefix: "match_here pat s \<longleftrightarrow> prefix pat s"
  by (induction pat s rule: match_here.induct) simp_all

lemma re_search_sublist: "re_search pat s \<longleftrightarrow> sublist pat s"
  by (induction s) (auto simp: match_here_prefix sublist_Cons_right)

text \<open>
  Claim C4, as the code has it: \<open>is_product_url\<close> returns true if and only if the URL
  string as a whole (scheme, host, path, query) contains one of the four patterns
  \<open>/product/\<close>, \<open>/item/\<close>, \<open>/p/\<close>, \<open>/catalogue/\<close> as a contiguous substring.
\<close>

theorem is_product_url_substring:
  "is_product_url url \<longleftrightarrow>
     (\<exists>before after. url = before @ ''/product/'' @ after) \<or>
     (\<exists>before after. url = before @ ''/item/'' @ after) \<or>
     (\<exists>before after. url = before @ ''/p/'' @ after) \<or>
     (\<exists>before after. url = before @ ''/catalogue/'' @ after)"
  by (simp add: is_product_url_def PRODUCT_PATTERNS_def re_search_sublist sublist_def)

text \<open>
  Claim C4 as stated fails: a pattern that occurs in the query string only makes
  \<open>is_product_url\<close> true, although the path component \<open>/search\<close> matches no pattern.
\<close>

theorem is_product_url_query_counterexample:
  "is_product_url ''https://shop.example/search?next=/product/7'' \<and>
   spec_path_component ''https://shop.example/search?next=/product/7'' = ''/search'' \<and>
   \<not> spec_isProduct ''https://shop.example/search?next=/product/7''"
  by code_simp

subsection \<open>The loop body and the loop\<close>

declare crawl_loop.simps [simp del]

lemma process_links_visited [simp]: "visited (process_links domain depth links s) = visited s"
  by (induction links arbitrary: s) simp_all

lemma process_links_world [simp]: "world (process_links domain depth links s) = world s"
  by (induction links arbitrary: s) simp_all

lemma process_links_trace:
  "trace (process_links domain depth links s) = trace s @ link_events domain depth (visited s) links"
  by (induction links arbitrary: s) simp_all

lemma process_links_product_urls:
  "product_urls (process_links domain depth links s) =
     product_urls s |\<union>| ffilter (\<lambda>l. l |\<notin>| visited s \<and> is_product_url l) (fset_of_list links)"
  by (induction links arbitrary: s) auto

lemma process_links_queue:
  "queue (process_links domain depth links s) =
     queue s @ map (\<lambda>l. (l, depth + 1))
       (filter (\<lambda>l. l |\<notin>| visited s \<and> \<not> is_product_url l \<and> sublist domain l) links)"
  by (induction links arbitrary: s) auto

lemma iteration_skip:
  assumes "depth > max_depth cfg \<or> u |\<in>| visited s"
  shows "iteration cfg session_get parse_links domain (u, depth) s =
           Continue (s\<lparr>trace := trace s @ [Get u depth (visited s)]\<rparr>)"
  using assms by (simp add: Let_def)

lemma iteration_fetch:
  assumes "\<not> depth > max_depth cfg" "u |\<notin>| visited s"
    and "fetch_url session_get (world s) u = (html, w')"
  shows "state_of (iteration cfg session_get parse_links domain (u, depth) s) =
           process_links domain depth (extracted parse_links u html)
             (s\<lparr>visited := finsert u (visited s), world := w',
                trace := trace s @ [Get u depth (visited s), Fetch u (finsert u (visited s)) html]\<rparr>)"
  using assms by (auto simp: Let_def split: option.splits)

text \<open>
  An invariant of the loop: it holds of the state the loop ends in, by return or by
  exception, when it holds at the start and every pass through the body keeps it.
\<close>

lemma crawl_loop_invariant:
  assumes "P s"
    and "\<And>t task rest. P t \<Longrightarrow> queue t = task # rest \<Longrightarrow> int (fcard (visited t)) < max_pages cfg
           \<Longrightarrow> P (state_of (iteration cfg session_get parse_links domain task (t\<lparr>queue := rest\<rparr>)))"
  shows "P (final (crawl_loop cfg session_get parse_links domain s))"
  using assms
proof (induction cfg session_get parse_links domain s rule: crawl_loop.induct)
  case (1 cfg session_get parse_links domain s)
  note inv = \<open>P s\<close> and step = 1(3)
  show ?case
  proof (cases "queue s")
    case Nil
    with inv show ?thesis by (simp add: crawl_loop.simps)
  next
    case (Cons task rest)
    show ?thesis
    proof (cases "int (fcard (visited s)) < max_pages cfg")
      case False
      with Cons inv show ?thesis by (simp add: crawl_loop.simps)
    next
      case True
      note next_inv = step[OF inv Cons True]
      show ?thesis
      proof (cases "iteration cfg session_get parse_links domain task (s\<lparr>queue := rest\<rparr>)")
        case (Continue s')
        with next_inv have "P s'" by simp
        from 1(1)[OF Cons True Continue this step] Cons True Continue show ?thesis
          by (simp add: crawl_loop.simps)
      next
        case (Raise s')
        with next_inv Cons True show ?thesis by (simp add: crawl_loop.simps)
      qed
    qed
  qed
qed

subsection \<open>What one pass through the loop body does\<close>

lemma iteration_trace_skip:
  assumes "d > max_depth cfg \<or> u |\<in>| visited s"
  shows "trace (state_of (iteration cfg session_get parse_links domain (u, d) s)) =
           trace s @ [Get u d (visited s)]"
  using assms by (simp add: iteration_skip del: iteration.simps)

lemma iteration_trace_fetch:
  assumes "\<not> d > max_depth cfg" "u |\<notin>| visited s"
  shows "trace (state_of (iteration cfg session_get parse_links domain (u, d) s)) =
           trace s @ Get u d (visited s) #
             Fetch u (finsert u (visited s)) (fst (fetch_url session_get (world s) u)) #
             link_events domain d (finsert u (visited s))
               (extracted parse_links u (fst (fetch_url session_get (world s) u)))"
proof -
  obtain html w' where f: "fetch_url session_get (world s) u = (html, w')"
    by (cases "fetch_url session_get (world s) u")
  show ?thesis
    unfolding iteration_fetch[OF assms f] by (simp add: process_links_trace f)
qed

lemma iteration_visited_skip:
  assumes "d > max_depth cfg \<or> u |\<in>| visited s"
  shows "visited (state_of (iteration cfg session_get parse_links domain (u, d) s)) = visited s"
  using assms by (simp add: iteration_skip del: iteration.simps)

lemma iteration_visited_fetch:
  assumes "\<not> d > max_depth cfg" "u |\<notin>| visited s"
  shows "visited (state_of (iteration cfg session_get parse_links domain (u, d) s)) =
           finsert u (visited s)"
proof -
  obtain html w' where f: "fetch_url session_get (world s) u = (html, w')"
    by (cases "fetch_url session_get (world s) u")
  show ?thesis
    unfolding iteration_fetch[OF assms f] by simp
qed

lemma fetches_append: "fetches (es @ es') = fetches es @ fetches es'"
  by (induction es rule: fetches.induct) simp_all

lemma snapshots_append: "snapshots (es @ es') = snapshots es @ snapshots es'"
  by (induction es rule: snapshots.induct) simp_all

lemma fetches_link_events [simp]: "fetches (link_events domain depth V links) = []"
  by (induction links) simp_all

lemma snapshots_link_events [simp]: "snapshots (link_events domain depth V links) = []"
  by (induction links) simp_all

lemma link_events_kind:
  "e \<in> set (link_events domain depth V links) \<Longrightarrow> (\<exists>l. e = Add l) \<or> (\<exists>l d. e = Put l d)"
  by (induction links) (auto split: if_splits)

lemma link_events_nth_not_fetch [simp]:
  "k < length (link_events domain depth V links) \<Longrightarrow>
     link_events domain depth V links ! k \<noteq> Fetch u W html"
  using link_events_kind[OF nth_mem] by fastforce

lemma link_events_nth_not_get [simp]:
  "k < length (link_events domain depth V links) \<Longrightarrow>
     link_events domain depth V links ! k \<noteq> Get u d W"
  using link_events_kind[OF nth_mem] by fastforce

subsection \<open>Fetched URLs and the page budget\<close>

lemma fetched_inv_iteration:
  assumes "fetched_inv t"
  shows "fetched_inv (state_of (iteration cfg session_get parse_links domain task (t\<lparr>queue := rest\<rparr>)))"
proof (cases task)
  case (Pair u d)
  let ?t = "t\<lparr>queue := rest\<rparr>"
  show ?thesis
  proof (cases "d > max_depth cfg \<or> u |\<in>| visited ?t")
    case True
    from assms show ?thesis
      unfolding Pair fetched_inv_def iteration_trace_skip[OF True] iteration_visited_skip[OF True]
      by (simp add: fetches_append)
  next
    case False
    then have nd: "\<not> d > max_depth cfg" and nv: "u |\<notin>| visited ?t" by simp_all
    from assms have old: "distinct (fetches (trace t))" "fset_of_list (fetches (trace t)) = visited t"
      by (simp_all add: fetched_inv_def)
    from nv have "u |\<notin>| visited t" by simp
    with old(2) have nf: "u \<notin> set (fetches (trace t))"
      by (metis fset_of_list_elem)
    from old nf show ?thesis
      unfolding Pair fetched_inv_def iteration_trace_fetch[OF nd nv] iteration_visited_fetch[OF nd nv]
      by (auto simp: fetches_append)
  qed
qed

lemma fetched_inv_final:
  "fetched_inv (final (crawl_domain cfg session_get parse_links domain w))"
  unfolding crawl_domain_def
proof (rule crawl_loop_invariant[where P = fetched_inv])
  show "fetched_inv (initial domain w)"
    by (simp add: initial_def fetched_inv_def)
qed (rule fetched_inv_iteration)

lemma budget_inv_iteration:
  assumes "budget_inv cfg t" "int (fcard (visited t)) < max_pages cfg"
  shows "budget_inv cfg (state_of (iteration cfg session_get parse_links domain task (t\<lparr>queue := rest\<rparr>)))"
proof (cases task)
  case (Pair u d)
  let ?t = "t\<lparr>queue := rest\<rparr>"
  from assms(1) have old: "int (fcard (visited t)) \<le> max_pages cfg"
    "sorted_wrt (|\<subseteq>|) (snapshots (trace t) @ [visited t])"
    by (simp_all add: budget_inv_def)
  show ?thesis
  proof (cases "d > max_depth cfg \<or> u |\<in>| visited ?t")
    case True
    from old show ?thesis
      unfolding Pair budget_inv_def iteration_trace_skip[OF True] iteration_visited_skip[OF True]
      by (simp add: snapshots_append sorted_wrt_append)
  next
    case False
    then have nd: "\<not> d > max_depth cfg" and nv: "u |\<notin>| visited ?t" by simp_all
    from nv have nv': "u |\<notin>| visited t" by simp
    have c1: "int (fcard (finsert u (visited t))) \<le> max_pages cfg"
      using assms(2) nv' by (simp add: fcard_finsert_disjoint)
    have c2: "sorted_wrt (|\<subseteq>|)
        (snapshots (trace t) @ [visited t, finsert u (visited t), finsert u (visited t)])"
      using old(2) by (auto simp: sorted_wrt_append)
    from c1 c2 show ?thesis
      unfolding Pair budget_inv_def iteration_trace_fetch[OF nd nv] iteration_visited_fetch[OF nd nv]
      by (simp add: snapshots_append)
  qed
qed

lemma budget_inv_final:
  assumes "0 \<le> max_pages cfg"
  shows "budget_inv cfg (final (crawl_domain cfg session_get parse_links domain w))"
  unfolding crawl_domain_def
proof (rule crawl_loop_invariant[where P = "budget_inv cfg"])
  show "budget_inv cfg (initial domain w)"
    using assms by (simp add: budget_inv_def initial_def fcard_fempty)
qed (rule budget_inv_iteration)

text \<open>
  Claim C1: with \<open>max_pages > 0\<close>, whatever the network and the link extractor do,
  \<open>visited\<close> never holds more than \<open>max_pages\<close> URLs: not in the state the traversal
  ends in, and not at any earlier moment (the trace records \<open>visited\<close> at the start of
  every pass through the loop and after the only statement that changes it); each
  recorded value is contained in all later ones and in the final one, so the set only
  grows; and \<open>fetch_url\<close> is called at most \<open>max_pages\<close> times.
\<close>

theorem visited_within_budget:
  fixes cfg :: crawler and session_get :: "'w session" and parse_links :: extractor
    and domain :: string and w :: 'w
  assumes "0 < max_pages cfg"
  defines "r \<equiv> final (crawl_domain cfg session_get parse_links domain w)"
  shows "int (fcard (visited r)) \<le> max_pages cfg \<and>
         sorted_wrt (|\<subseteq>|) (snapshots (trace r) @ [visited r]) \<and>
         (\<forall>V \<in> set (snapshots (trace r)). int (fcard V) \<le> max_pages cfg) \<and>
         int (length (fetches (trace r))) \<le> max_pages cfg"
proof -
  from assms(1) have inv: "budget_inv cfg r"
    unfolding r_def by (intro budget_inv_final) simp
  then have bound: "int (fcard (visited r)) \<le> max_pages cfg"
    and chain: "sorted_wrt (|\<subseteq>|) (snapshots (trace r) @ [visited r])"
    by (simp_all add: budget_inv_def)
  have "fetched_inv r"
    unfolding r_def by (rule fetched_inv_final)
  then have dist: "distinct (fetches (trace r))"
    and eq: "fset_of_list (fetches (trace r)) = visited r"
    by (simp_all add: fetched_inv_def)
  have snap: "int (fcard V) \<le> max_pages cfg" if "V \<in> set (snapshots (trace r))" for V
  proof -
    from chain that have "V |\<subseteq>| visited r"
      by (simp add: sorted_wrt_append)
    then have "fcard V \<le> fcard (visited r)"
      by (rule fcard_mono)
    with bound show ?thesis by linarith
  qed
  have "length (fetches (trace r)) = fcard (visited r)"
    using dist eq[symmetric] by (simp add: fcard.rep_eq fset_of_list.rep_eq distinct_card)
  with bound have len: "int (length (fetches (trace r))) \<le> max_pages cfg"
    by simp
  from bound chain snap len show ?thesis
    by blast
qed

theorem visited_within_budget_witness:
  "0 < max_pages shop \<and>
   int (fcard (visited shop_run)) \<le> max_pages shop \<and>
   {|''https://d.com''|} \<in> set (snapshots (trace shop_run)) \<and>
   int (fcard {|''https://d.com''|}) \<le> max_pages shop \<and>
   int (length (fetches (trace shop_run))) \<le> max_pages shop"
proof -
  have h: "0 < max_pages shop"
    by (simp add: shop_def)
  have e: "{|''https://d.com''|} \<in> set (snapshots (trace shop_run))"
    by code_simp
  from visited_within_budget[OF h, of shop_session shop_extractor "''d.com''" 0] h e
  show ?thesis
    unfolding shop_run_def by blast
qed

subsection \<open>No URL is fetched twice\<close>

lemma fetch_after_get_append:
  assumes "fetch_after_get tr" "fetch_after_get blk"
  shows "fetch_after_get (tr @ blk)"
  unfolding fetch_after_get_def
proof (intro allI impI)
  fix i u V html
  assume a: "i < length (tr @ blk) \<and> (tr @ blk) ! i = Fetch u V html"
  show "0 < i \<and> (\<exists>d V0. (tr @ blk) ! (i - 1) = Get u d V0 \<and> u |\<notin>| V0 \<and> V = finsert u V0)"
  proof (cases "i < length tr")
    case True
    with a have "tr ! i = Fetch u V html" by (simp add: nth_append)
    with assms(1) True have "0 < i \<and> (\<exists>d V0. tr ! (i - 1) = Get u d V0 \<and> u |\<notin>| V0 \<and> V = finsert u V0)"
      unfolding fetch_after_get_def by blast
    moreover from True have "i - 1 < length tr" by simp
    then have "(tr @ blk) ! (i - 1) = tr ! (i - 1)" by (simp only: nth_append if_True)
    ultimately show ?thesis by simp
  next
    case False
    define j where "j = i - length tr"
    from False a have j: "j < length blk" "blk ! j = Fetch u V html"
      by (auto simp: j_def nth_append)
    with assms(2) have r: "0 < j \<and> (\<exists>d V0. blk ! (j - 1) = Get u d V0 \<and> u |\<notin>| V0 \<and> V = finsert u V0)"
      unfolding fetch_after_get_def by blast
    from r False have ge: "\<not> i - 1 < length tr" and eq: "i - 1 - length tr = j - 1"
      unfolding j_def by linarith+
    have "(tr @ blk) ! (i - 1) = blk ! (j - 1)"
      using ge eq by (simp only: nth_append if_False)
    moreover from r False have "0 < i"
      unfolding j_def by linarith
    ultimately show ?thesis using r by simp
  qed
qed

lemma fetch_after_get_block:
  assumes "u |\<notin>| V"
  shows "fetch_after_get (Get u d V # Fetch u (finsert u V) html # link_events domain d W links)"
  unfolding fetch_after_get_def
proof (intro allI impI)
  fix i u' V' html'
  assume a: "i < length (Get u d V # Fetch u (finsert u V) html # link_events domain d W links) \<and>
    (Get u d V # Fetch u (finsert u V) html # link_events domain d W links) ! i = Fetch u' V' html'"
  show "0 < i \<and> (\<exists>d' V0. (Get u d V # Fetch u (finsert u V) html # link_events domain d W links) ! (i - 1)
      = Get u' d' V0 \<and> u' |\<notin>| V0 \<and> V' = finsert u' V0)"
  proof (cases i)
    case 0
    with a show ?thesis by simp
  next
    case (Suc k)
    show ?thesis
    proof (cases k)
      case 0
      with Suc a assms show ?thesis by auto
    next
      case (Suc m)
      with \<open>i = Suc k\<close> a show ?thesis by auto
    qed
  qed
qed

lemma fetch_after_get_single: "fetch_after_get [Get u d V]"
  by (auto simp: fetch_after_get_def nth_Cons')


lemma fetch_after_get_iteration:
  assumes "fetch_after_get (trace t)"
  shows "fetch_after_get
    (trace (state_of (iteration cfg session_get parse_links domain task (t\<lparr>queue := rest\<rparr>))))"
proof (cases task)
  case (Pair u d)
  let ?t = "t\<lparr>queue := rest\<rparr>"
  show ?thesis
  proof (cases "d > max_depth cfg \<or> u |\<in>| visited ?t")
    case True
    show ?thesis
      unfolding Pair iteration_trace_skip[OF True]
      using assms by (simp add: fetch_after_get_append fetch_after_get_single)
  next
    case False
    then have nd: "\<not> d > max_depth cfg" and nv: "u |\<notin>| visited ?t" by simp_all
    show ?thesis
      unfolding Pair iteration_trace_fetch[OF nd nv]
      using assms nv by (simp add: fetch_after_get_append fetch_after_get_block)
  qed
qed

lemma fetch_after_get_final:
  "fetch_after_get (trace (final (crawl_domain cfg session_get parse_links domain w)))"
  unfolding crawl_domain_def
proof (rule crawl_loop_invariant[where P = "\<lambda>s. fetch_after_get (trace s)"])
  show "fetch_after_get (trace (initial domain w))"
    by (simp add: initial_def fetch_after_get_def)
qed (rule fetch_after_get_iteration)

text \<open>
  Claim C2: within one traversal no URL is fetched twice (the URLs on which \<open>fetch_url\<close>
  was called are pairwise different), and every call of \<open>fetch_url\<close> on a URL directly
  follows the \<open>queue.get()\<close> of a task with that URL in the same pass through the loop;
  the URL was not in \<open>visited\<close> at that point, the start of the pass, and is in
  \<open>visited\<close> when \<open>fetch_url\<close> is called: it was added in between.
\<close>

theorem no_url_fetched_twice:
  fixes cfg :: crawler and session_get :: "'w session" and parse_links :: extractor
    and domain :: string and w :: 'w
  defines "tr \<equiv> trace (final (crawl_domain cfg session_get parse_links domain w))"
  shows "distinct (fetches tr) \<and>
         (\<forall>i u V html. i < length tr \<and> tr ! i = Fetch u V html \<longrightarrow>
            0 < i \<and> (\<exists>d V0. tr ! (i - 1) = Get u d V0 \<and> u |\<notin>| V0 \<and> u |\<in>| V \<and> V = finsert u V0))"
proof -
  have "fetched_inv (final (crawl_domain cfg session_get parse_links domain w))"
    by (rule fetched_inv_final)
  then have d: "distinct (fetches tr)"
    by (simp add: fetched_inv_def tr_def)
  have "fetch_after_get tr"
    unfolding tr_def by (rule fetch_after_get_final)
  then have "\<forall>i u V html. i < length tr \<and> tr ! i = Fetch u V html \<longrightarrow>
            0 < i \<and> (\<exists>d V0. tr ! (i - 1) = Get u d V0 \<and> u |\<notin>| V0 \<and> u |\<in>| V \<and> V = finsert u V0)"
    unfolding fetch_after_get_def by blast
  with d show ?thesis by blast
qed

theorem no_url_fetched_twice_witness:
  "6 < length (trace shop_run) \<and>
   trace shop_run ! 6 = Fetch ''https://d.com/about'' {|''https://d.com'', ''https://d.com/about''|} (Some ''ABOUT'') \<and>
   (\<exists>d V0. trace shop_run ! (6 - 1) = Get ''https://d.com/about'' d V0 \<and>
      ''https://d.com/about'' |\<notin>| V0 \<and>
      {|''https://d.com'', ''https://d.com/about''|} = finsert ''https://d.com/about'' V0) \<and>
   distinct (fetches (trace shop_run))"
proof -
  have e: "6 < length (trace shop_run)"
    "trace shop_run ! 6 = Fetch ''https://d.com/about'' {|''https://d.com'', ''https://d.com/about''|} (Some ''ABOUT'')"
    by code_simp+
  from no_url_fetched_twice[of shop shop_session shop_extractor "''d.com''" 0] e
  show ?thesis
    unfolding shop_run_def by blast
qed

subsection \<open>Which dequeued tasks are fetched\<close>

lemma get_then_fetch_append:
  assumes "get_then_fetch cfg tr" "get_then_fetch cfg (Get u0 d0 V0 # blk)"
  shows "get_then_fetch cfg (tr @ Get u0 d0 V0 # blk)"
  unfolding get_then_fetch_def
proof (intro allI impI)
  let ?b = "Get u0 d0 V0 # blk"
  fix i u d V
  assume a: "i < length (tr @ ?b) \<and> (tr @ ?b) ! i = Get u d V"
  consider "Suc i < length tr" | "Suc i = length tr" | "length tr \<le> i"
    by linarith
  then show "(Suc i < length (tr @ ?b) \<and> (\<exists>html. (tr @ ?b) ! Suc i = Fetch u (finsert u V) html))
      \<longleftrightarrow> (d \<le> max_depth cfg \<and> u |\<notin>| V)"
  proof cases
    case 1
    then have i: "i < length tr" by simp
    with a have g: "tr ! i = Get u d V" by (simp add: nth_append)
    from 1 have n: "(tr @ ?b) ! Suc i = tr ! Suc i" by (simp only: nth_append if_True)
    from assms(1) i g have "(Suc i < length tr \<and> (\<exists>html. tr ! Suc i = Fetch u (finsert u V) html))
      \<longleftrightarrow> (d \<le> max_depth cfg \<and> u |\<notin>| V)"
      unfolding get_then_fetch_def by blast
    with 1 n show ?thesis by simp
  next
    case 2
    then have i: "i < length tr" by simp
    with a have g: "tr ! i = Get u d V" by (simp add: nth_append)
    from 2 have n: "(tr @ ?b) ! Suc i = Get u0 d0 V0" by (simp add: nth_append)
    from assms(1) i g have "(Suc i < length tr \<and> (\<exists>html. tr ! Suc i = Fetch u (finsert u V) html))
      \<longleftrightarrow> (d \<le> max_depth cfg \<and> u |\<notin>| V)"
      unfolding get_then_fetch_def by blast
    with 2 n show ?thesis by simp
  next
    case 3
    define j where "j = i - length tr"
    from 3 a have j: "j < length ?b" "?b ! j = Get u d V"
      by (auto simp: j_def nth_append)
    from 3 have n: "(tr @ ?b) ! Suc i = ?b ! Suc j"
      unfolding j_def by (simp add: nth_append Suc_diff_le)
    from 3 have l: "Suc i < length (tr @ ?b) \<longleftrightarrow> Suc j < length ?b"
      unfolding j_def by auto
    from assms(2) j have "(Suc j < length ?b \<and> (\<exists>html. ?b ! Suc j = Fetch u (finsert u V) html))
      \<longleftrightarrow> (d \<le> max_depth cfg \<and> u |\<notin>| V)"
      unfolding get_then_fetch_def by blast
    with n l show ?thesis by simp
  qed
qed

lemma get_then_fetch_single:
  assumes "d > max_depth cfg \<or> u |\<in>| V"
  shows "get_then_fetch cfg [Get u d V]"
  using assms by (auto simp: get_then_fetch_def)

lemma get_then_fetch_block:
  assumes "\<not> d > max_depth cfg" "u |\<notin>| V"
  shows "get_then_fetch cfg (Get u d V # Fetch u (finsert u V) html # link_events domain d W links)"
  unfolding get_then_fetch_def
proof (intro allI impI)
  let ?b = "Get u d V # Fetch u (finsert u V) html # link_events domain d W links"
  fix i u' d' V'
  assume a: "i < length ?b \<and> ?b ! i = Get u' d' V'"
  show "(Suc i < length ?b \<and> (\<exists>html'. ?b ! Suc i = Fetch u' (finsert u' V') html'))
      \<longleftrightarrow> (d' \<le> max_depth cfg \<and> u' |\<notin>| V')"
  proof (cases i)
    case 0
    with a assms show ?thesis by auto
  next
    case (Suc k)
    show ?thesis
    proof (cases k)
      case 0
      with Suc a show ?thesis by simp
    next
      case (Suc m)
      with \<open>i = Suc k\<close> a show ?thesis by auto
    qed
  qed
qed

lemma get_then_fetch_iteration:
  assumes "get_then_fetch cfg (trace t)"
  shows "get_then_fetch cfg
    (trace (state_of (iteration cfg session_get parse_links domain task (t\<lparr>queue := rest\<rparr>))))"
proof (cases task)
  case (Pair u d)
  let ?t = "t\<lparr>queue := rest\<rparr>"
  show ?thesis
  proof (cases "d > max_depth cfg \<or> u |\<in>| visited ?t")
    case True
    then have "get_then_fetch cfg [Get u d (visited ?t)]"
      by (rule get_then_fetch_single)
    with assms show ?thesis
      unfolding Pair iteration_trace_skip[OF True]
      by (simp add: get_then_fetch_append)
  next
    case False
    then have nd: "\<not> d > max_depth cfg" and nv: "u |\<notin>| visited ?t" by simp_all
    show ?thesis
      unfolding Pair iteration_trace_fetch[OF nd nv]
      using assms get_then_fetch_block[OF nd nv] by (simp add: get_then_fetch_append)
  qed
qed

lemma get_then_fetch_final:
  "get_then_fetch cfg (trace (final (crawl_domain cfg session_get parse_links domain w)))"
  unfolding crawl_domain_def
proof (rule crawl_loop_invariant[where P = "\<lambda>s. get_then_fetch cfg (trace s)"])
  show "get_then_fetch cfg (trace (initial domain w))"
    by (simp add: initial_def get_then_fetch_def)
qed (rule get_then_fetch_iteration)

text \<open>
  Claim C3, as the code has it: \<open>queue.get()\<close> also returns tasks whose depth exceeds
  \<open>max_depth\<close> and tasks whose URL is already in \<open>visited\<close>; the loop discards them
  after the fact. A task that was dequeued is fetched directly afterwards if and only if
  its depth is at most \<open>max_depth\<close> and its URL is not in \<open>visited\<close> at that moment; so
  every task that is dequeued and not discarded satisfies both.
\<close>

theorem dequeued_task_fetched_iff:
  fixes cfg :: crawler and session_get :: "'w session" and parse_links :: extractor
    and domain :: string and w :: 'w
  defines "tr \<equiv> trace (final (crawl_domain cfg session_get parse_links domain w))"
  shows "\<forall>i u d V. i < length tr \<and> tr ! i = Get u d V \<longrightarrow>
           ((Suc i < length tr \<and> (\<exists>html. tr ! Suc i = Fetch u (finsert u V) html))
              \<longleftrightarrow> (d \<le> max_depth cfg \<and> u |\<notin>| V))"
  using get_then_fetch_final[of cfg session_get parse_links domain w]
  unfolding tr_def get_then_fetch_def .

theorem dequeued_task_fetched_iff_witness:
  "5 < length (trace shop_run) \<and>
   trace shop_run ! 5 = Get ''https://d.com/about'' 1 {|''https://d.com''|} \<and>
   1 \<le> max_depth shop \<and> ''https://d.com/about'' |\<notin>| {|''https://d.com''|} \<and>
   Suc 5 < length (trace shop_run) \<and>
   (\<exists>html. trace shop_run ! Suc 5 =
      Fetch ''https://d.com/about'' (finsert ''https://d.com/about'' {|''https://d.com''|}) html)"
proof -
  have e: "5 < length (trace shop_run)"
    "trace shop_run ! 5 = Get ''https://d.com/about'' 1 {|''https://d.com''|}"
    "1 \<le> max_depth shop" "''https://d.com/about'' |\<notin>| {|''https://d.com''|}"
    by code_simp+
  from dequeued_task_fetched_iff[of shop shop_session shop_extractor "''d.com''" 0] e
  show ?thesis
    unfolding shop_run_def by blast
qed

text \<open>
  Claim C3 as stated fails: in the run on the small site with \<open>max_depth = 1\<close> the task
  \<open>(https://d.com/contact, 2)\<close> is dequeued, with a depth above \<open>max_depth\<close>.
\<close>

theorem dequeued_beyond_max_depth_counterexample:
  "Get ''https://d.com/contact'' 2 {|''https://d.com'', ''https://d.com/about''|}
     \<in> set (trace shop_run) \<and>
   \<not> (2 \<le> max_depth shop \<and>
        ''https://d.com/contact'' |\<notin>| {|''https://d.com'', ''https://d.com/about''|})"
  by code_simp

subsection \<open>Links: recorded or enqueued\<close>

lemma Add_in_link_events:
  "Add l \<in> set (link_events domain d V links) \<longleftrightarrow> l \<in> set links \<and> l |\<notin>| V \<and> is_product_url l"
  by (induction links) auto

lemma Put_in_link_events:
  "Put l d' \<in> set (link_events domain d V links) \<longleftrightarrow>
     l \<in> set links \<and> l |\<notin>| V \<and> \<not> is_product_url l \<and> sublist domain l \<and> d' = d + 1"
  by (induction links) auto

lemma Get_notin_link_events [simp]: "Get u d' W \<notin> set (link_events domain d V links)"
  using link_events_kind by blast

lemma Fetch_notin_link_events [simp]: "Fetch u W html \<notin> set (link_events domain d V links)"
  using link_events_kind by blast

lemma iteration_product_urls_skip:
  assumes "d > max_depth cfg \<or> u |\<in>| visited s"
  shows "product_urls (state_of (iteration cfg session_get parse_links domain (u, d) s)) =
           product_urls s"
  using assms by (simp add: iteration_skip del: iteration.simps)

lemma iteration_queue_skip:
  assumes "d > max_depth cfg \<or> u |\<in>| visited s"
  shows "queue (state_of (iteration cfg session_get parse_links domain (u, d) s)) = queue s"
  using assms by (simp add: iteration_skip del: iteration.simps)

lemma iteration_product_urls_fetch:
  assumes "\<not> d > max_depth cfg" "u |\<notin>| visited s"
  shows "product_urls (state_of (iteration cfg session_get parse_links domain (u, d) s)) =
           product_urls s |\<union>|
           ffilter (\<lambda>l. l |\<notin>| finsert u (visited s) \<and> is_product_url l)
             (fset_of_list (extracted parse_links u (fst (fetch_url session_get (world s) u))))"
proof -
  obtain html w' where f: "fetch_url session_get (world s) u = (html, w')"
    by (cases "fetch_url session_get (world s) u")
  show ?thesis
    unfolding iteration_fetch[OF assms f] by (simp add: process_links_product_urls f)
qed

lemma iteration_queue_fetch:
  assumes "\<not> d > max_depth cfg" "u |\<notin>| visited s"
  shows "queue (state_of (iteration cfg session_get parse_links domain (u, d) s)) =
           queue s @ map (\<lambda>l. (l, d + 1))
             (filter (\<lambda>l. l |\<notin>| finsert u (visited s) \<and> \<not> is_product_url l \<and> sublist domain l)
                (extracted parse_links u (fst (fetch_url session_get (world s) u))))"
proof -
  obtain html w' where f: "fetch_url session_get (world s) u = (html, w')"
    by (cases "fetch_url session_get (world s) u")
  show ?thesis
    unfolding iteration_fetch[OF assms f] by (simp add: process_links_queue f)
qed

lemma link_inv_iteration:
  assumes "link_inv domain t" "queue t = task # rest"
  shows "link_inv domain (state_of (iteration cfg session_get parse_links domain task (t\<lparr>queue := rest\<rparr>)))"
proof (cases task)
  case (Pair u d)
  let ?t = "t\<lparr>queue := rest\<rparr>"
  from assms(1) have i1: "\<forall>l d. Put l d \<in> set (trace t) \<longrightarrow> \<not> is_product_url l \<and> sublist domain l"
    and i2: "\<forall>l. Add l \<in> set (trace t) \<longleftrightarrow> l |\<in>| product_urls t"
    and i3: "\<forall>l. l |\<in>| product_urls t \<longrightarrow> is_product_url l"
    and i4: "\<forall>l d. (l, d) \<in> set (queue t) \<longrightarrow> (l, d) = (root_url domain, 0) \<or> Put l d \<in> set (trace t)"
    and i5: "\<forall>l d V. Get l d V \<in> set (trace t) \<longrightarrow>
        (l, d) = (root_url domain, 0) \<or> Put l d \<in> set (trace t)"
    unfolding link_inv_def by blast+
  from i4 assms(2) Pair have i4': "\<forall>l d. (l, d) \<in> set rest \<longrightarrow>
      (l, d) = (root_url domain, 0) \<or> Put l d \<in> set (trace t)"
    and task: "(u, d) = (root_url domain, 0) \<or> Put u d \<in> set (trace t)"
    by simp_all
  note old = i1 i2 i3 i4' i5
  show ?thesis
  proof (cases "d > max_depth cfg \<or> u |\<in>| visited ?t")
    case True
    show ?thesis
      unfolding Pair link_inv_def iteration_trace_skip[OF True] iteration_queue_skip[OF True]
        iteration_product_urls_skip[OF True]
      using old task by auto
  next
    case False
    then have nd: "\<not> d > max_depth cfg" and nv: "u |\<notin>| visited ?t" by simp_all
    let ?ls = "extracted parse_links u (fst (fetch_url session_get (world ?t) u))"
    let ?V = "finsert u (visited ?t)"
    let ?s = "state_of (iteration cfg session_get parse_links domain (u, d) ?t)"
    have tr: "set (trace ?s) = set (trace t) \<union>
        {Get u d (visited ?t), Fetch u ?V (fst (fetch_url session_get (world ?t) u))} \<union>
        set (link_events domain d ?V ?ls)"
      unfolding iteration_trace_fetch[OF nd nv] by auto
    have pr: "product_urls ?s =
        product_urls t |\<union>| ffilter (\<lambda>l. l |\<notin>| ?V \<and> is_product_url l) (fset_of_list ?ls)"
      unfolding iteration_product_urls_fetch[OF nd nv] by simp
    have qu: "set (queue ?s) = set rest \<union>
        (\<lambda>l. (l, d + 1)) ` {l \<in> set ?ls. l |\<notin>| ?V \<and> \<not> is_product_url l \<and> sublist domain l}"
      unfolding iteration_queue_fetch[OF nd nv] by auto
    have c1: "\<forall>l d. Put l d \<in> set (trace ?s) \<longrightarrow> \<not> is_product_url l \<and> sublist domain l"
      unfolding tr using i1 by (auto simp: Put_in_link_events)
    have c2: "\<forall>l. Add l \<in> set (trace ?s) \<longleftrightarrow> l |\<in>| product_urls ?s"
      unfolding tr pr using i2 by (auto simp: Add_in_link_events fset_of_list_elem)
    have c3: "\<forall>l. l |\<in>| product_urls ?s \<longrightarrow> is_product_url l"
      unfolding pr using i3 by auto
    have c4: "\<forall>l d. (l, d) \<in> set (queue ?s) \<longrightarrow>
        (l, d) = (root_url domain, 0) \<or> Put l d \<in> set (trace ?s)"
      unfolding tr qu using i4' by (auto simp: Put_in_link_events)
    have c5: "\<forall>l d V. Get l d V \<in> set (trace ?s) \<longrightarrow>
        (l, d) = (root_url domain, 0) \<or> Put l d \<in> set (trace ?s)"
    proof (intro allI impI)
      fix l d' V
      assume "Get l d' V \<in> set (trace ?s)"
      then have "Get l d' V \<in> set (trace t) \<or> (l, d') = (u, d)"
        unfolding tr by auto
      with i5 task have "(l, d') = (root_url domain, 0) \<or> Put l d' \<in> set (trace t)"
        by blast
      then show "(l, d') = (root_url domain, 0) \<or> Put l d' \<in> set (trace ?s)"
        unfolding tr by blast
    qed
    from c1 c2 c3 c4 c5 show ?thesis
      unfolding Pair link_inv_def by blast
  qed
qed

lemma link_inv_final:
  "link_inv domain (final (crawl_domain cfg session_get parse_links domain w))"
  unfolding crawl_domain_def
proof (rule crawl_loop_invariant[where P = "link_inv domain"])
  show "link_inv domain (initial domain w)"
    by (simp add: initial_def link_inv_def)
qed (rule link_inv_iteration)


text \<open>
  Claim C6: the loop never puts a link on the queue for which \<open>is_product_url\<close> is true,
  and never one that does not contain the domain name; no link is both added to
  \<open>product_urls\<close> and put on the queue, at any time of the traversal. The trace holds a
  \<open>Put\<close> for every \<open>queue.put\<close> of the loop and an \<open>Add\<close> for every
  \<open>product_urls.add\<close>: every task on the queue or ever taken from it is the root task,
  which \<open>crawl_domain\<close> puts before the loop, or was put by a \<open>Put\<close>, and
  \<open>product_urls\<close> holds exactly the added links.
\<close>

theorem product_links_never_enqueued:
  fixes cfg :: crawler and session_get :: "'w session" and parse_links :: extractor
    and domain :: string and w :: 'w
  defines "r \<equiv> final (crawl_domain cfg session_get parse_links domain w)"
  shows "(\<forall>l d. Put l d \<in> set (trace r) \<longrightarrow> \<not> is_product_url l \<and> sublist domain l) \<and>
         (\<forall>l. l |\<in>| product_urls r \<longleftrightarrow> Add l \<in> set (trace r)) \<and>
         (\<forall>l. \<not> (Add l \<in> set (trace r) \<and> (\<exists>d. Put l d \<in> set (trace r)))) \<and>
         (\<forall>l d. (l, d) \<in> set (queue r) \<longrightarrow>
            (l, d) = (root_url domain, 0) \<or> Put l d \<in> set (trace r)) \<and>
         (\<forall>l d V. Get l d V \<in> set (trace r) \<longrightarrow>
            (l, d) = (root_url domain, 0) \<or> Put l d \<in> set (trace r))"
proof -
  have "link_inv domain r"
    unfolding r_def by (rule link_inv_final)
  then have i1: "\<forall>l d. Put l d \<in> set (trace r) \<longrightarrow> \<not> is_product_url l \<and> sublist domain l"
    and i2: "\<forall>l. Add l \<in> set (trace r) \<longleftrightarrow> l |\<in>| product_urls r"
    and i3: "\<forall>l. l |\<in>| product_urls r \<longrightarrow> is_product_url l"
    and i4: "\<forall>l d. (l, d) \<in> set (queue r) \<longrightarrow> (l, d) = (root_url domain, 0) \<or> Put l d \<in> set (trace r)"
    and i5: "\<forall>l d V. Get l d V \<in> set (trace r) \<longrightarrow>
        (l, d) = (root_url domain, 0) \<or> Put l d \<in> set (trace r)"
    unfolding link_inv_def by blast+
  from i1 i2 i3 have "\<forall>l. \<not> (Add l \<in> set (trace r) \<and> (\<exists>d. Put l d \<in> set (trace r)))"
    by blast
  with i1 i2 i4 i5 show ?thesis
    by blast
qed

theorem product_links_never_enqueued_witness:
  "Put ''https://d.com/about'' 1 \<in> set (trace shop_run) \<and>
   \<not> is_product_url ''https://d.com/about'' \<and> sublist ''d.com'' ''https://d.com/about'' \<and>
   Add ''https://other.org/item/9'' \<in> set (trace shop_run) \<and>
   ''https://other.org/item/9'' |\<in>| product_urls shop_run \<and>
   \<not> (\<exists>d. Put ''https://other.org/item/9'' d \<in> set (trace shop_run))"
proof -
  have e: "Put ''https://d.com/about'' 1 \<in> set (trace shop_run)"
    "Add ''https://other.org/item/9'' \<in> set (trace shop_run)"
    by code_simp+
  from product_links_never_enqueued[of shop shop_session shop_extractor "''d.com''" 0] e
  show ?thesis
    unfolding shop_run_def by blast
qed

subsection \<open>What the product set holds\<close>

lemma in_extracted:
  "l \<in> set (extracted parse_links u html) \<longleftrightarrow>
     (\<exists>body links. html = Some body \<and> parse_links body u = Some links \<and> l \<in> set links)"
proof (cases html)
  case None
  then show ?thesis by simp
next
  case (Some body)
  then show ?thesis by (cases "parse_links body u") simp_all
qed

lemma product_inv_iteration:
  assumes "product_inv parse_links t"
  shows "product_inv parse_links
    (state_of (iteration cfg session_get parse_links domain task (t\<lparr>queue := rest\<rparr>)))"
proof (cases task)
  case (Pair u d)
  let ?t = "t\<lparr>queue := rest\<rparr>"
  let ?s = "state_of (iteration cfg session_get parse_links domain (u, d) ?t)"
  let ?R = "\<lambda>tr l. \<exists>u V body links. Fetch u V (Some body) \<in> set tr \<and>
      parse_links body u = Some links \<and> l \<in> set links \<and> l |\<notin>| V \<and> is_product_url l"
  from assms have old: "\<forall>l. l |\<in>| product_urls t \<longleftrightarrow> ?R (trace t) l"
    unfolding product_inv_def by simp
  show ?thesis
  proof (cases "d > max_depth cfg \<or> u |\<in>| visited ?t")
    case True
    from old show ?thesis
      unfolding Pair product_inv_def iteration_trace_skip[OF True]
        iteration_product_urls_skip[OF True]
      by simp
  next
    case False
    then have nd: "\<not> d > max_depth cfg" and nv: "u |\<notin>| visited ?t" by simp_all
    let ?html = "fst (fetch_url session_get (world ?t) u)"
    let ?V = "finsert u (visited ?t)"
    have tr: "set (trace ?s) = set (trace t) \<union> {Get u d (visited ?t), Fetch u ?V ?html} \<union>
        set (link_events domain d ?V (extracted parse_links u ?html))"
      unfolding iteration_trace_fetch[OF nd nv] by auto
    have pr: "product_urls ?s = product_urls t |\<union>|
        ffilter (\<lambda>l. l |\<notin>| ?V \<and> is_product_url l) (fset_of_list (extracted parse_links u ?html))"
      unfolding iteration_product_urls_fetch[OF nd nv] by simp
    have "l |\<in>| product_urls ?s \<longleftrightarrow> ?R (trace ?s) l" for l
    proof
      assume "l |\<in>| product_urls ?s"
      then consider "l |\<in>| product_urls t"
        | "l \<in> set (extracted parse_links u ?html)" "l |\<notin>| ?V" "is_product_url l"
        unfolding pr by (auto simp: fset_of_list_elem)
      then show "?R (trace ?s) l"
      proof cases
        case 1
        with old have "?R (trace t) l" by simp
        then show ?thesis unfolding tr by blast
      next
        case 2
        from 2(1) obtain body links where "?html = Some body" "parse_links body u = Some links"
          "l \<in> set links"
          unfolding in_extracted by blast
        with 2(2,3) have "Fetch u ?V (Some body) \<in> set (trace ?s) \<and>
          parse_links body u = Some links \<and> l \<in> set links \<and> l |\<notin>| ?V \<and> is_product_url l"
          unfolding tr by simp
        then show ?thesis by blast
      qed
    next
      assume "?R (trace ?s) l"
      then obtain u' V body links where f: "Fetch u' V (Some body) \<in> set (trace ?s)"
        and r: "parse_links body u' = Some links" "l \<in> set links" "l |\<notin>| V" "is_product_url l"
        by blast
      from f consider "Fetch u' V (Some body) \<in> set (trace t)"
        | "u' = u" "V = ?V" "?html = Some body"
        unfolding tr by auto
      then show "l |\<in>| product_urls ?s"
      proof cases
        case 1
        with r have "?R (trace t) l" by blast
        with old show ?thesis unfolding pr by simp
      next
        case 2
        with r have "l \<in> set (extracted parse_links u ?html)"
          unfolding in_extracted by simp
        with 2 r show ?thesis
          unfolding pr by (simp add: fset_of_list_elem)
      qed
    qed
    then show ?thesis
      unfolding Pair product_inv_def by blast
  qed
qed

lemma product_inv_final:
  "product_inv parse_links (final (crawl_domain cfg session_get parse_links domain w))"
  unfolding crawl_domain_def
proof (rule crawl_loop_invariant[where P = "product_inv parse_links"])
  show "product_inv parse_links (initial domain w)"
    by (simp add: initial_def product_inv_def)
qed (rule product_inv_iteration)

text \<open>
  Claim C5: a URL is in the final \<open>product_urls\<close> if and only if it is among the links
  that \<open>parse_links\<close> extracted from a page that \<open>fetch_url\<close> fetched successfully in
  this traversal, was not in \<open>visited\<close> when the links of that page were processed, and
  satisfies \<open>is_product_url\<close>. The set \<open>V\<close> of the \<open>Fetch\<close> event is \<open>visited\<close> at
  the call of \<open>fetch_url\<close>; the \<open>for\<close> loop over the links does not change it
  (\<open>process_links_visited\<close>). Containing the domain name is no condition: the witness
  is a product link of another domain that is recorded.
\<close>

theorem product_urls_characterisation:
  fixes cfg :: crawler and session_get :: "'w session" and parse_links :: extractor
    and domain :: string and w :: 'w
  defines "r \<equiv> final (crawl_domain cfg session_get parse_links domain w)"
  shows "l |\<in>| product_urls r \<longleftrightarrow>
           (\<exists>u V body links. Fetch u V (Some body) \<in> set (trace r) \<and>
              parse_links body u = Some links \<and> l \<in> set links \<and> l |\<notin>| V \<and> is_product_url l)"
  using product_inv_final[of parse_links cfg session_get domain w]
  unfolding r_def product_inv_def by blast

theorem product_urls_characterisation_witness:
  "Fetch ''https://d.com'' {|''https://d.com''|} (Some ''ROOT'') \<in> set (trace shop_run) \<and>
   shop_extractor ''ROOT'' ''https://d.com'' =
     Some [''https://d.com/product/42'', ''https://d.com/about'',
           ''https://other.org/item/9'', ''https://other.org/news''] \<and>
   ''https://other.org/item/9'' |\<notin>| {|''https://d.com''|} \<and>
   is_product_url ''https://other.org/item/9'' \<and>
   \<not> sublist ''d.com'' ''https://other.org/item/9'' \<and>
   ''https://other.org/item/9'' |\<in>| product_urls shop_run"
proof -
  have e: "Fetch ''https://d.com'' {|''https://d.com''|} (Some ''ROOT'') \<in> set (trace shop_run)"
    "shop_extractor ''ROOT'' ''https://d.com'' =
       Some [''https://d.com/product/42'', ''https://d.com/about'',
             ''https://other.org/item/9'', ''https://other.org/news'']"
    "''https://other.org/item/9'' |\<notin>| {|''https://d.com''|}"
    "is_product_url ''https://other.org/item/9''"
    "\<not> sublist ''d.com'' ''https://other.org/item/9''"
    by code_simp+
  have "''https://other.org/item/9'' \<in> set [''https://d.com/product/42'', ''https://d.com/about'',
             ''https://other.org/item/9'', ''https://other.org/news'']"
    by simp
  with e have "\<exists>u V body links. Fetch u V (Some body) \<in> set (trace shop_run) \<and>
      shop_extractor body u = Some links \<and> ''https://other.org/item/9'' \<in> set links \<and>
      ''https://other.org/item/9'' |\<notin>| V \<and> is_product_url ''https://other.org/item/9''"
    by blast
  then have "''https://other.org/item/9'' |\<in>| product_urls shop_run"
    unfolding shop_run_def
    using product_urls_characterisation[of "''https://other.org/item/9''" shop shop_session
        shop_extractor "''d.com''" 0]
    by blast
  with e show ?thesis by blast
qed

subsection \<open>Termination\<close>

lemma iteration_dead_end:
  assumes "\<not> d > max_depth cfg" "u |\<notin>| visited s"
    and "fetch_url session_get (world s) u = (None, w')"
  shows "iteration cfg session_get parse_links domain (u, d) s =
           Continue (s\<lparr>visited := finsert u (visited s), world := w',
             trace := trace s @ [Get u d (visited s), Fetch u (finsert u (visited s)) None]\<rparr>)"
  using assms by (simp add: Let_def)

lemma iteration_page:
  assumes "\<not> d > max_depth cfg" "u |\<notin>| visited s"
    and "fetch_url session_get (world s) u = (Some body, w')"
    and "parse_links body u = Some links"
  shows "iteration cfg session_get parse_links domain (u, d) s =
           Continue (process_links domain d (remdups links)
             (s\<lparr>visited := finsert u (visited s), world := w',
                trace := trace s @ [Get u d (visited s), Fetch u (finsert u (visited s)) (Some body)]\<rparr>))"
  using assms by (simp add: Let_def)

lemma iteration_continues:
  assumes "\<forall>body u. parse_links body u \<noteq> None"
  shows "\<exists>s'. iteration cfg session_get parse_links domain task s = Continue s'"
proof (cases task)
  case (Pair u d)
  obtain html w' where f: "fetch_url session_get (world s) u = (html, w')"
    by (cases "fetch_url session_get (world s) u")
  show ?thesis
  proof (cases "d > max_depth cfg \<or> u |\<in>| visited s")
    case True
    then show ?thesis unfolding Pair by (simp add: iteration_skip del: iteration.simps)
  next
    case False
    then have nd: "\<not> d > max_depth cfg" and nv: "u |\<notin>| visited s" by simp_all
    show ?thesis
    proof (cases html)
      case None
      with f show ?thesis
        unfolding Pair by (simp add: iteration_dead_end[OF nd nv] del: iteration.simps)
    next
      case (Some body)
      from assms have "parse_links body u \<noteq> None"
        by blast
      then obtain links where "parse_links body u = Some links"
        by (cases "parse_links body u") simp_all
      with f Some show ?thesis
        unfolding Pair by (simp add: iteration_page[OF nd nv] del: iteration.simps)
    qed
  qed
qed

lemma crawl_loop_returns:
  assumes "\<forall>body u. parse_links body u \<noteq> None"
  shows "\<exists>r. crawl_loop cfg session_get parse_links domain s = Returned r \<and>
           (queue r = [] \<or> \<not> int (fcard (visited r)) < max_pages cfg)"
  using assms
proof (induction cfg session_get parse_links domain s rule: crawl_loop.induct)
  case (1 cfg session_get parse_links domain s)
  show ?case
  proof (cases "queue s")
    case Nil
    then show ?thesis by (simp add: crawl_loop.simps)
  next
    case (Cons task rest)
    show ?thesis
    proof (cases "int (fcard (visited s)) < max_pages cfg")
      case False
      with Cons show ?thesis by (simp add: crawl_loop.simps)
    next
      case True
      from iteration_continues[OF 1(2)] obtain s' where
        it: "iteration cfg session_get parse_links domain task (s\<lparr>queue := rest\<rparr>) = Continue s'"
        by blast
      from 1(1)[OF Cons True it 1(2)] Cons True it show ?thesis
        by (simp add: crawl_loop.simps)
    qed
  qed
qed

text \<open>
  Claim C7: when \<open>parse_links\<close> returns a set of links for every page (the links of a page
  are a list, so finitely many), \<open>crawl_domain\<close> returns, for every configuration, network
  and domain; it does so with the queue empty or the page budget used up. \<open>crawl_loop\<close> is
  a total function: its recursion is well-founded, since every pass through the loop body
  either adds a new URL to \<open>visited\<close>, which holds fewer than \<open>max_pages\<close>, or leaves
  \<open>visited\<close> as it is and shortens the queue by the task it took.
\<close>

theorem crawl_domain_terminates:
  assumes "\<forall>body u. parse_links body u \<noteq> None"
  shows "\<exists>r. crawl_domain cfg session_get parse_links domain w = Returned r \<and>
           (queue r = [] \<or> \<not> int (fcard (visited r)) < max_pages cfg)"
  unfolding crawl_domain_def using assms by (rule crawl_loop_returns)

theorem crawl_domain_terminates_witness:
  "(\<forall>body u. shop_extractor body u \<noteq> None) \<and>
   (\<exists>r. crawl_domain shop shop_session shop_extractor ''d.com'' 0 = Returned r \<and>
      (queue r = [] \<or> \<not> int (fcard (visited r)) < max_pages shop))"
proof -
  have h: "\<forall>body u. shop_extractor body u \<noteq> None"
    by (simp add: shop_extractor_def)
  from h crawl_domain_terminates[OF h, of shop shop_session "''d.com''" 0]
  show ?thesis by blast
qed

subsection \<open>Failed fetches are dead ends\<close>

lemma fetch_url_fails:
  assumes "fetch_fails (fst (session_get w u))"
  shows "fetch_url session_get w u = (None, snd (session_get w u))"
proof (cases "session_get w u")
  case (Pair out w')
  with assms show ?thesis
    by (cases out) (auto simp: fetch_url_def fetch_fails_def)
qed

text \<open>
  Claim C8: when the request times out, fails in the transport or is answered with a status
  outside 200..299, \<open>fetch_url\<close> returns \<open>None\<close>; the pass through the loop body for that
  task then only marks the URL visited, leaves the queue and \<open>product_urls\<close> as they are
  (the page has no links) and continues the loop. When it is the fetch of the root that
  fails, in a configuration with \<open>max_depth \<ge> 0\<close> and \<open>max_pages > 0\<close> (in any other the
  root is not fetched at all), \<open>crawl_domain\<close> returns with no product URL and with
  \<open>visited\<close> holding the root only; \<open>Returned\<close> says that no exception leaves it.
\<close>

theorem fetch_failure_is_dead_end:
  "(fetch_fails (fst (session_get w u)) \<longrightarrow> fst (fetch_url session_get w u) = None) \<and>
   (fetch_fails (fst (session_get (world s) u)) \<and> d \<le> max_depth cfg \<and> u |\<notin>| visited s \<longrightarrow>
      iteration cfg session_get parse_links domain (u, d) s =
        Continue (s\<lparr>visited := finsert u (visited s), world := snd (session_get (world s) u),
          trace := trace s @ [Get u d (visited s), Fetch u (finsert u (visited s)) None]\<rparr>)) \<and>
   (fetch_fails (fst (session_get w (root_url domain))) \<and> 0 \<le> max_depth cfg \<and> 0 < max_pages cfg \<longrightarrow>
      (\<exists>r. crawl_domain cfg session_get parse_links domain w = Returned r \<and>
         product_urls r = {||} \<and> visited r = {|root_url domain|} \<and> queue r = []))"
proof (intro conjI impI)
  assume "fetch_fails (fst (session_get w u))"
  then show "fst (fetch_url session_get w u) = None"
    by (simp add: fetch_url_fails)
next
  assume a: "fetch_fails (fst (session_get (world s) u)) \<and> d \<le> max_depth cfg \<and> u |\<notin>| visited s"
  then have "fetch_url session_get (world s) u = (None, snd (session_get (world s) u))"
    by (simp add: fetch_url_fails)
  with a show "iteration cfg session_get parse_links domain (u, d) s =
        Continue (s\<lparr>visited := finsert u (visited s), world := snd (session_get (world s) u),
          trace := trace s @ [Get u d (visited s), Fetch u (finsert u (visited s)) None]\<rparr>)"
    by (intro iteration_dead_end) simp_all
next
  let ?root = "root_url domain"
  assume a: "fetch_fails (fst (session_get w ?root)) \<and> 0 \<le> max_depth cfg \<and> 0 < max_pages cfg"
  let ?s0 = "(initial domain w)\<lparr>queue := []\<rparr>"
  let ?s1 = "?s0\<lparr>visited := finsert ?root (visited ?s0), world := snd (session_get w ?root),
          trace := trace ?s0 @ [Get ?root 0 (visited ?s0), Fetch ?root (finsert ?root (visited ?s0)) None]\<rparr>"
  from a have f: "fetch_url session_get (world ?s0) ?root = (None, snd (session_get w ?root))"
    by (simp add: fetch_url_fails initial_def)
  have it: "iteration cfg session_get parse_links domain (?root, 0) ?s0 = Continue ?s1"
    using a by (intro iteration_dead_end[OF _ _ f]) (simp_all add: initial_def)
  have "crawl_loop cfg session_get parse_links domain (initial domain w) =
      crawl_loop cfg session_get parse_links domain ?s1"
    using a it by (subst crawl_loop.simps) (simp add: initial_def fcard_fempty del: iteration.simps)
  also have "\<dots> = Returned ?s1"
    by (subst crawl_loop.simps) (simp add: initial_def)
  finally show "\<exists>r. crawl_domain cfg session_get parse_links domain w = Returned r \<and>
         product_urls r = {||} \<and> visited r = {|root_url domain|} \<and> queue r = []"
    by (simp add: crawl_domain_def initial_def)
qed

theorem fetch_failure_is_dead_end_witness:
  "fetch_fails (fst (dead_session 0 (root_url ''d.com''))) \<and>
   0 \<le> max_depth shop \<and> 0 < max_pages shop \<and>
   fst (fetch_url dead_session 0 (root_url ''d.com'')) = None \<and>
   (\<exists>r. crawl_domain shop dead_session shop_extractor ''d.com'' 0 = Returned r \<and>
      product_urls r = {||} \<and> visited r = {|root_url ''d.com''|} \<and> queue r = [])"
proof -
  have h: "fetch_fails (fst (dead_session 0 (root_url ''d.com'')))"
    "0 \<le> max_depth shop" "0 < max_pages shop"
    by (simp_all add: fetch_fails_def dead_session_def shop_def)
  from h fetch_failure_is_dead_end[where session_get = dead_session and w = 0
      and u = "root_url ''d.com''" and cfg = shop and domain = "''d.com''"
      and parse_links = shop_extractor]
  show ?thesis by blast
qed

subsection \<open>The scenario with depth zero\<close>

lemma is_product_url_sublist:
  "is_product_url url \<longleftrightarrow> (\<exists>pattern \<in> set PRODUCT_PATTERNS. sublist pattern url)"
  by (simp add: is_product_url_def list_ex_iff re_search_sublist)

lemma filter_only:
  assumes "distinct xs" "a \<in> set xs" "\<forall>x \<in> set xs. P x \<longleftrightarrow> x = a"
  shows "filter P xs = [a]"
  using assms
proof (induction xs)
  case Nil
  then show ?case by simp
next
  case (Cons x xs)
  show ?case
  proof (cases "x = a")
    case True
    with Cons.prems have "\<forall>y \<in> set xs. \<not> P y" by auto
    then have "filter P xs = []" by (simp add: filter_empty_conv)
    with True Cons.prems show ?thesis by simp
  next
    case False
    with Cons show ?thesis by auto
  qed
qed

text \<open>
  Claim C9: with \<open>max_depth = 0\<close> and any positive page budget, for a domain whose root
  page is fetched with status 200 and holds exactly two links, \<open>/product/42\<close> and the
  non-product page \<open>/about\<close> below the root, in whichever order the set gives them,
  \<open>crawl_domain\<close> returns with \<open>product_urls\<close> holding the product link only and
  \<open>visited\<close> holding the root only, and the root is the only URL it called \<open>fetch_url\<close>
  on. (\<open>/about\<close> is put on the queue with depth 1; when the page budget is above 1 it is
  taken from the queue again and discarded.)
\<close>

theorem depth_zero_scenario:
  fixes cfg :: crawler and session_get :: "'w session" and parse_links :: extractor
    and domain :: string and w w' :: 'w
  defines "root \<equiv> root_url domain"
  assumes depth: "max_depth cfg = 0" and pages: "0 < max_pages cfg"
    and get: "session_get w root = (Responded 200 (Some body), w')"
    and parse: "parse_links body root = Some links"
    and links: "set links = {root @ ''/product/42'', root @ ''/about''}"
    and about: "\<not> is_product_url (root @ ''/about'')"
  shows "\<exists>r. crawl_domain cfg session_get parse_links domain w = Returned r \<and>
           product_urls r = {|root @ ''/product/42''|} \<and> visited r = {|root|} \<and>
           fetches (trace r) = [root]"
proof -
  let ?p = "root @ ''/product/42''" and ?a = "root @ ''/about''"
  have "sublist ''/product/'' (root @ ''/product/'' @ ''42'')"
    by (rule sublist_appendI)
  then have "sublist ''/product/'' ?p"
    by simp
  then have prod: "is_product_url ?p"
    unfolding is_product_url_sublist by (simp add: PRODUCT_PATTERNS_def)
  have "sublist domain (''https://'' @ domain @ ''/about'')"
    by (rule sublist_appendI)
  then have dom: "sublist domain ?a"
    by (simp add: root_def root_url_def)
  have ne: "?p \<noteq> root" "?a \<noteq> root" "?p \<noteq> ?a"
    by simp_all
  let ?s0 = "(initial domain w)\<lparr>queue := []\<rparr>"
  let ?s0' = "?s0\<lparr>visited := finsert root (visited ?s0), world := w',
      trace := trace ?s0 @ [Get root 0 (visited ?s0), Fetch root (finsert root (visited ?s0)) (Some body)]\<rparr>"
  let ?s1 = "process_links domain 0 (remdups links) ?s0'"
  have f: "fetch_url session_get (world ?s0) root = (Some body, w')"
    using get by (simp add: fetch_url_def initial_def)
  have nd: "\<not> 0 > max_depth cfg" and nv: "root |\<notin>| visited ?s0"
    using depth by (simp_all add: initial_def)
  have it: "iteration cfg session_get parse_links domain (root, 0) ?s0 = Continue ?s1"
    by (rule iteration_page[where session_get = session_get and parse_links = parse_links
          and s = ?s0 and u = root and body = body, OF nd nv f parse])
  have first: "crawl_loop cfg session_get parse_links domain (initial domain w) =
      crawl_loop cfg session_get parse_links domain ?s1"
    using pages it
    by (subst crawl_loop.simps)
       (simp add: initial_def fcard_fempty root_def[symmetric] del: iteration.simps)
  have vis: "visited ?s1 = {|root|}"
    by (simp add: initial_def)
  have pr: "product_urls ?s1 = {|?p|}"
    using links prod about ne
    by (auto simp: process_links_product_urls initial_def fset_of_list_elem)
  have "filter (\<lambda>l. l |\<notin>| visited ?s0' \<and> \<not> is_product_url l \<and> sublist domain l) (remdups links) = [?a]"
    using links prod about dom ne by (intro filter_only) (auto simp: initial_def)
  then have qu: "queue ?s1 = [(?a, 1)]"
    by (simp add: process_links_queue initial_def)
  have fe: "fetches (trace ?s1) = [root]"
    by (simp add: process_links_trace fetches_append initial_def)
  show ?thesis
  proof (cases "int (fcard (visited ?s1)) < max_pages cfg")
    case False
    with qu have "crawl_loop cfg session_get parse_links domain ?s1 = Returned ?s1"
      by (subst crawl_loop.simps) simp
    with first vis pr fe show ?thesis
      by (simp add: crawl_domain_def)
  next
    case True
    let ?s2 = "?s1\<lparr>queue := [], trace := trace ?s1 @ [Get ?a 1 (visited ?s1)]\<rparr>"
    have it2: "iteration cfg session_get parse_links domain (?a, 1) (?s1\<lparr>queue := []\<rparr>) = Continue ?s2"
      using depth by (subst iteration_skip) simp_all
    from True qu it2 have "crawl_loop cfg session_get parse_links domain ?s1 =
        crawl_loop cfg session_get parse_links domain ?s2"
      by (subst crawl_loop.simps) (simp del: iteration.simps process_links.simps)
    also have "\<dots> = Returned ?s2"
      by (subst crawl_loop.simps) simp
    finally have "crawl_loop cfg session_get parse_links domain ?s1 = Returned ?s2" .
    with first vis pr fe show ?thesis
      by (simp add: crawl_domain_def fetches_append)
  qed
qed


theorem depth_zero_scenario_witness:
  "max_depth flat = 0 \<and> 0 < max_pages flat \<and>
   shop_session 0 (root_url ''d.com'') = (Responded 200 (Some ''ROOT''), 1) \<and>
   two_links ''ROOT'' (root_url ''d.com'') =
     Some [root_url ''d.com'' @ ''/about'', root_url ''d.com'' @ ''/product/42''] \<and>
   \<not> is_product_url (root_url ''d.com'' @ ''/about'') \<and>
   (\<exists>r. crawl_domain flat shop_session two_links ''d.com'' 0 = Returned r \<and>
      product_urls r = {|root_url ''d.com'' @ ''/product/42''|} \<and>
      visited r = {|root_url ''d.com''|} \<and> fetches (trace r) = [root_url ''d.com''])"
proof -
  have h: "max_depth flat = 0" "0 < max_pages flat"
    "shop_session 0 (root_url ''d.com'') = (Responded 200 (Some ''ROOT''), 1)"
    "two_links ''ROOT'' (root_url ''d.com'') =
       Some [root_url ''d.com'' @ ''/about'', root_url ''d.com'' @ ''/product/42'']"
    by (simp_all add: flat_def shop_session_def root_url_def two_links_def)
  have s: "set [root_url ''d.com'' @ ''/about'', root_url ''d.com'' @ ''/product/42''] =
      {root_url ''d.com'' @ ''/product/42'', root_url ''d.com'' @ ''/about''}"
    by auto
  have n: "\<not> is_product_url (root_url ''d.com'' @ ''/about'')"
    by code_simp
  from depth_zero_scenario[where cfg = flat and session_get = shop_session and w = 0
      and domain = "''d.com''" and body = "''ROOT''" and w' = 1 and parse_links = two_links
      and links = "[root_url ''d.com'' @ ''/about'', root_url ''d.com'' @ ''/product/42'']",
      OF h(1) h(2) h(3) h(4) s n] h n
  show ?thesis by blast
qed

subsection \<open>The semaphore bounds the running crawls\<close>

lemma count_enter:
  "i < length ps \<Longrightarrow> ps ! i \<noteq> Running \<Longrightarrow>
     length (filter (\<lambda>p. p = Running) (ps[i := Running])) =
       Suc (length (filter (\<lambda>p. p = Running) ps))"
proof (induction ps arbitrary: i)
  case Nil
  then show ?case by simp
next
  case (Cons p ps)
  then show ?case by (cases i) auto
qed

lemma count_leave:
  "i < length ps \<Longrightarrow> ps ! i = Running \<Longrightarrow>
     Suc (length (filter (\<lambda>p. p = Running) (ps[i := Done]))) =
       length (filter (\<lambda>p. p = Running) ps)"
proof (induction ps arbitrary: i)
  case Nil
  then show ?case by simp
next
  case (Cons p ps)
  then show ?case by (cases i) auto
qed

lemma sched_step_inv:
  assumes "sched_step domains a s = Some s'" "0 \<le> sem s" "sem s + int (running s) = n"
  shows "0 \<le> sem s' \<and> sem s' + int (running s') = n"
proof (cases a)
  case (Acquire i)
  with assms(1) have g: "i < length (phases s)" "phases s ! i = Waiting" "0 < sem s"
    and s': "s' = s\<lparr>phases := (phases s)[i := Running], sem := sem s - 1\<rparr>"
    by (auto split: if_splits)
  from g have "running s' = Suc (running s)"
    unfolding s' running_def by (simp add: count_enter)
  with g assms(3) show ?thesis
    unfolding s' by simp
next
  case (Return i urls)
  with assms(1) have g: "i < length (phases s)" "phases s ! i = Running"
    and s': "s' = s\<lparr>phases := (phases s)[i := Done], sem := sem s + 1,
        results := (results s)(domains ! i \<mapsto> urls)\<rparr>"
    by (auto split: if_splits)
  from g have "Suc (running s') = running s"
    unfolding s' running_def by (simp add: count_leave)
  with assms(2,3) show ?thesis
    unfolding s' by auto
next
  case (Fail i)
  with assms(1) have g: "i < length (phases s)" "phases s ! i = Running"
    and s': "s' = s\<lparr>phases := (phases s)[i := Done], sem := sem s + 1\<rparr>"
    by (auto split: if_splits)
  from g have "Suc (running s') = running s"
    unfolding s' running_def by (simp add: count_leave)
  with assms(2,3) show ?thesis
    unfolding s' by auto
qed

lemma run_inv:
  assumes "run domains acts s = Some s'" "0 \<le> sem s" "sem s + int (running s) = n"
  shows "0 \<le> sem s' \<and> sem s' + int (running s') = n"
  using assms
proof (induction acts arbitrary: s)
  case Nil
  then show ?case by simp
next
  case (Cons a acts)
  from Cons.prems(1) obtain t where t: "sched_step domains a s = Some t"
    and r: "run domains acts t = Some s'"
    by (auto split: option.splits)
  from sched_step_inv[OF t Cons.prems(2,3)] Cons.IH[OF r] show ?case
    by blast
qed

lemma running_start: "running \<lparr>phases = replicate k Waiting, sem = v, results = m\<rparr> = 0"
  by (simp add: running_def)

text \<open>
  Claim C10: in every state that a run of \<open>crawl_domains\<close> reaches, at most
  \<open>max_concurrent_requests\<close> tasks are inside \<open>crawl_domain\<close>; and when that many are,
  no waiting task can enter: the only steps possible are those in which a running task
  leaves \<open>crawl_domain\<close>, so the others wait until one has finished.
\<close>

theorem concurrent_crawls_bounded:
  assumes "crawl_domains_start cfg domains = Some s0" and "run domains acts s0 = Some s"
  shows "int (running s) \<le> max_concurrent_requests cfg \<and>
         (int (running s) = max_concurrent_requests cfg \<longrightarrow>
            (\<forall>i. sched_step domains (Acquire i) s = None) \<and>
            (\<forall>a s'. sched_step domains a s = Some s' \<longrightarrow> running s' < running s))"
proof -
  from assms(1) have n: "0 \<le> max_concurrent_requests cfg"
    and s0: "s0 = \<lparr>phases = replicate (length domains) Waiting,
                 sem = max_concurrent_requests cfg, results = Map.empty\<rparr>"
    by (auto simp: crawl_domains_start_def split: if_splits)
  have "0 \<le> sem s0" "sem s0 + int (running s0) = max_concurrent_requests cfg"
    using n unfolding s0 by (simp_all add: running_start)
  from run_inv[OF assms(2) this] have inv: "0 \<le> sem s"
    "sem s + int (running s) = max_concurrent_requests cfg"
    by simp_all
  then have bound: "int (running s) \<le> max_concurrent_requests cfg"
    by linarith
  have sat: "(\<forall>i. sched_step domains (Acquire i) s = None) \<and>
      (\<forall>a s'. sched_step domains a s = Some s' \<longrightarrow> running s' < running s)"
    if full: "int (running s) = max_concurrent_requests cfg"
  proof -
    from inv full have z: "sem s = 0" by linarith
    then have no: "\<forall>i. sched_step domains (Acquire i) s = None"
      by simp
    have "running s' < running s" if st: "sched_step domains a s = Some s'" for a s'
    proof (cases a)
      case (Acquire i)
      with no st show ?thesis by simp
    next
      case (Return i urls)
      with st have "i < length (phases s)" "phases s ! i = Running"
        and "phases s' = (phases s)[i := Done]"
        by (auto split: if_splits)
      then show ?thesis
        unfolding running_def using count_leave[of i "phases s"] by simp
    next
      case (Fail i)
      with st have "i < length (phases s)" "phases s ! i = Running"
        and "phases s' = (phases s)[i := Done]"
        by (auto split: if_splits)
      then show ?thesis
        unfolding running_def using count_leave[of i "phases s"] by simp
    qed
    with no show ?thesis by blast
  qed
  from bound sat show ?thesis by blast
qed


theorem concurrent_crawls_bounded_witness:
  "crawl_domains_start narrow [''a.com'', ''b.com''] =
     Some \<lparr>phases = [Waiting, Waiting], sem = 1, results = Map.empty\<rparr> \<and>
   run [''a.com'', ''b.com''] [Acquire 0]
     \<lparr>phases = [Waiting, Waiting], sem = 1, results = Map.empty\<rparr> = Some one_inside \<and>
   int (running one_inside) = max_concurrent_requests narrow \<and>
   sched_step [''a.com'', ''b.com''] (Acquire 1) one_inside = None"
proof -
  have h: "crawl_domains_start narrow [''a.com'', ''b.com''] =
      Some \<lparr>phases = [Waiting, Waiting], sem = 1, results = Map.empty\<rparr>"
    "run [''a.com'', ''b.com''] [Acquire 0]
      \<lparr>phases = [Waiting, Waiting], sem = 1, results = Map.empty\<rparr> = Some one_inside"
    by (simp_all add: crawl_domains_start_def narrow_def one_inside_def)
  have f: "int (running one_inside) = max_concurrent_requests narrow"
    by (simp add: running_def one_inside_def narrow_def)
  from concurrent_crawls_bounded[OF h] f h
  show ?thesis by blast
qed

end
